theory Spec2Isabelle
  imports Main "HOL-Library.AList"
begin

section \<open>Admission gate: path validation and argument sanitisation\<close>

text \<open>
  \<^verbatim>\<open>SecurityManager\<close> (security.ts). The security section of the configuration, and the
  parts of the Node runtime that \<^verbatim>\<open>validateFilePath\<close> consults (\<^verbatim>\<open>path.resolve\<close>,
  \<^verbatim>\<open>path.extname\<close> followed by \<^verbatim>\<open>toLowerCase\<close>, \<^verbatim>\<open>fs.existsSync\<close>), are parameters.
  The window is a number of seconds, the request ceiling a count.
\<close>

record security_config =
  rateLimitWindow :: int
  rateLimitMaxRequests :: nat
  allowedDirectories :: "string list"
  blockedExtensions :: "string list"

record node_env =
  resolve :: "string \<Rightarrow> string"
  extnameLower :: "string \<Rightarrow> string"
  existsSync :: "string \<Rightarrow> bool"

datatype path_error = InvalidFilePath | DirectoryTraversal | RestrictedDirectory
  | BlockedExtension string | FileNotFound

text \<open>\<^verbatim>\<open>String.prototype.startsWith\<close> and \<^verbatim>\<open>String.prototype.includes\<close>.\<close>

definition startsWith :: "string \<Rightarrow> string \<Rightarrow> bool" where
  "startsWith s p = (take (length p) s = p)"

fun includesStr :: "string \<Rightarrow> string \<Rightarrow> bool" where
  "includesStr [] sub = (sub = [])"
| "includesStr (c # cs) sub = (startsWith (c # cs) sub \<or> includesStr cs sub)"

definition validateFilePath ::
  "node_env \<Rightarrow> security_config \<Rightarrow> string \<Rightarrow> path_error + unit" where
  "validateFilePath env cfg filePath =
     (if filePath = [] then Inl InvalidFilePath
      else if includesStr filePath ''..'' \<or> includesStr filePath ''~'' then Inl DirectoryTraversal
      else if \<not> list_ex (\<lambda>dir. startsWith (resolve env filePath) (resolve env dir))
                  (allowedDirectories cfg)
        then Inl RestrictedDirectory
      else if extnameLower env filePath \<in> set (blockedExtensions cfg)
        then Inl (BlockedExtension (extnameLower env filePath))
      else if \<not> existsSync env (resolve env filePath) then Inl FileNotFound
      else Inr ())"

definition dangerousFlags :: "string list" where
  "dangerousFlags =
     [''-f'', ''lavfi'', ''-protocol_whitelist'', ''-safe'', ''0'', ''-f'', ''concat'']"

definition looksLikePath :: "string \<Rightarrow> bool" where
  "looksLikePath arg = (startsWith arg ''/'' \<or> startsWith arg ''./'' \<or> startsWith arg ''../'')"

text \<open>
  The \<^verbatim>\<open>for\<close> loop of \<^verbatim>\<open>sanitizeFFmpegArgs\<close>: the argument is the part of \<^verbatim>\<open>args\<close> from
  index \<^verbatim>\<open>i\<close> on, the result is what the remaining iterations push onto \<^verbatim>\<open>sanitized\<close>.
  The look-ahead \<^verbatim>\<open>args[i + 1]\<close> reads the input list, and \<^verbatim>\<open>i++\<close> skips that element.
\<close>

fun sanitizeFFmpegArgs :: "node_env \<Rightarrow> security_config \<Rightarrow> string list \<Rightarrow> string list" where
  "sanitizeFFmpegArgs env cfg [] = []"
| "sanitizeFFmpegArgs env cfg (arg # rest) =
     (if arg \<in> set dangerousFlags then sanitizeFFmpegArgs env cfg rest
      else if arg = ''-i'' \<and> rest \<noteq> [] \<and> hd rest = ''pipe:''
        then sanitizeFFmpegArgs env cfg (tl rest)
      else if looksLikePath arg \<and> isl (validateFilePath env cfg arg)
        then sanitizeFFmpegArgs env cfg rest
      else arg # sanitizeFFmpegArgs env cfg rest)"

text \<open>A piped-input directive: \<^verbatim>\<open>-i\<close> immediately followed by \<^verbatim>\<open>pipe:\<close>.\<close>

fun hasPipedInput :: "string list \<Rightarrow> bool" where
  "hasPipedInput (a # b # rest) = ((a = ''-i'' \<and> b = ''pipe:'') \<or> hasPipedInput (b # rest))"
| "hasPipedInput _ = False"

text \<open>The default security configuration of server.ts, and a machine with an empty disk.\<close>

definition defaultSecurity :: "string \<Rightarrow> security_config" where
  "defaultSecurity cwd =
     \<lparr> rateLimitWindow = 60, rateLimitMaxRequests = 10,
       allowedDirectories = [''/tmp'', ''/var/tmp'', cwd],
       blockedExtensions = [''.exe'', ''.bat'', ''.sh'', ''.ps1''] \<rparr>"

definition emptyDisk :: node_env where
  "emptyDisk = \<lparr> resolve = (\<lambda>p. p), extnameLower = (\<lambda>p. []), existsSync = (\<lambda>p. False) \<rparr>"

section \<open>Job scheduler\<close>

text \<open>
  \<^verbatim>\<open>JobQueue\<close> (queue.ts). The performance section of the configuration; the two ceilings
  are counts, the timeout is in milliseconds.
\<close>

record performance_config =
  enableCaching :: bool
  cacheSize :: nat
  maxConcurrentJobs :: nat
  queueTimeout :: int

text \<open>
  A job's \<^verbatim>\<open>resolve\<close> and \<^verbatim>\<open>reject\<close> are the two capabilities of the promise that
  \<^verbatim>\<open>addJob\<close> creates. The promises live in a store, a job carries the index of its promise
  (\<open>handle\<close>), and calling \<^verbatim>\<open>resolve\<close> or \<^verbatim>\<open>reject\<close> is \<open>settle\<close> at that index: as the
  language defines it, only a pending promise changes. Argument payloads and results
  (\<^verbatim>\<open>any\<close> in the source) are opaque strings; priorities and clock readings are
  integers.
\<close>

datatype job_error = TimedOut string int | JobCancelled | ExecutionError string

datatype settlement = Pending | Resolved string | Rejected job_error

record job =
  job_id :: string
  job_type :: string
  args :: string
  priority :: int
  startTime :: "int option"
  handle :: nat

definition settle :: "nat \<Rightarrow> settlement \<Rightarrow> settlement list \<Rightarrow> settlement list" where
  "settle h v ps = (if h < length ps \<and> ps ! h = Pending then ps[h := v] else ps)"

text \<open>
  The fields of the class, and the two pieces of runtime state its callbacks live in: the
  timeouts that \<^verbatim>\<open>startJob\<close> has set and that have neither fired nor been cleared, and the
  activations of \<^verbatim>\<open>startJob\<close> suspended at \<^verbatim>\<open>await this.executeJob(job)\<close>. Both close over
  the job. The two \<^verbatim>\<open>Map\<close>s keep insertion order and have one entry for each key.
\<close>

record queue_state =
  queue :: "job list"
  running :: "(string \<times> job) list"
  completed :: "(string \<times> string \<times> int) list"
  promises :: "settlement list"
  timers :: "job list"
  awaiting :: "job list"

definition initialQueue :: queue_state where
  "initialQueue = \<lparr> queue = [], running = [], completed = [], promises = [],
                     timers = [], awaiting = [] \<rparr>"

text \<open>
  \<^verbatim>\<open>addJob\<close>: the identifier is built from the clock and a random number, so it is an
  argument here. The new promise is the next cell of the store.
\<close>

definition addJob :: "string \<Rightarrow> string \<Rightarrow> string \<Rightarrow> int \<Rightarrow> queue_state \<Rightarrow> queue_state" where
  "addJob ident type payload prio s =
     s\<lparr> queue := queue s @
           [\<lparr> job_id = ident, job_type = type, args = payload, priority = prio,
              startTime = None, handle = length (promises s) \<rparr>],
        promises := promises s @ [Pending] \<rparr>"

text \<open>
  \<^verbatim>\<open>startJob\<close> up to its \<^verbatim>\<open>await\<close>: the start time, the entry in \<^verbatim>\<open>running\<close>, the timeout,
  and the call of the executor, whose answer arrives as a later event.
\<close>

definition startJob :: "int \<Rightarrow> job \<Rightarrow> queue_state \<Rightarrow> queue_state" where
  "startJob now j s =
     (let j' = j\<lparr> startTime := Some now \<rparr>
      in s\<lparr> running := AList.update (job_id j') j' (running s),
            timers := timers s @ [j'],
            awaiting := awaiting s @ [j'] \<rparr>)"

text \<open>
  \<^verbatim>\<open>processQueue\<close>. \<^verbatim>\<open>Array.prototype.sort\<close> is stable and sorts in place; the comparator
  \<^verbatim>\<open>b.priority - a.priority\<close> orders by descending priority. The first component of the
  result is the job handed to \<^verbatim>\<open>startJob\<close>, as it stood in the queue, if there is one.
\<close>

definition byPriority :: "job list \<Rightarrow> job list" where
  "byPriority q = sort_key (\<lambda>j. - priority j) q"

definition processQueue ::
  "performance_config \<Rightarrow> int \<Rightarrow> queue_state \<Rightarrow> job option \<times> queue_state" where
  "processQueue cfg now s =
     (if length (running s) \<ge> maxConcurrentJobs cfg then (None, s)
      else if queue s = [] then (None, s)
      else (let q = byPriority (queue s); j = hd q
            in (Some j, startJob now j (s\<lparr> queue := tl q \<rparr>))))"

text \<open>\<^verbatim>\<open>cleanupCompleted\<close>: completed jobs are kept for one minute.\<close>

definition cleanupCompleted :: "int \<Rightarrow> queue_state \<Rightarrow> queue_state" where
  "cleanupCompleted now s =
     s\<lparr> completed := filter (\<lambda>(ident, result, stamp). \<not> now - stamp > 60000) (completed s) \<rparr>"

text \<open>
  The timeout callback of the job whose promise is \<open>h\<close>. Without such a timer nothing
  happens.
\<close>

definition timeoutFires :: "performance_config \<Rightarrow> nat \<Rightarrow> queue_state \<Rightarrow> queue_state" where
  "timeoutFires cfg h s =
     (case find (\<lambda>j. handle j = h) (timers s) of
        None \<Rightarrow> s
      | Some j \<Rightarrow>
          s\<lparr> timers := remove1 j (timers s),
             promises := settle (handle j) (Rejected (TimedOut (job_id j) (queueTimeout cfg)))
                           (promises s),
             running := AList.delete (job_id j) (running s) \<rparr>)"

text \<open>
  The rest of \<^verbatim>\<open>startJob\<close>, resumed when the executor's promise is fulfilled with
  \<open>result\<close>: the timeout is cleared, the result recorded, the job resolved.
\<close>

definition executorResolves :: "nat \<Rightarrow> string \<Rightarrow> int \<Rightarrow> queue_state \<Rightarrow> queue_state" where
  "executorResolves h result now s =
     (case find (\<lambda>j. handle j = h) (awaiting s) of
        None \<Rightarrow> s
      | Some j \<Rightarrow>
          s\<lparr> awaiting := remove1 j (awaiting s),
             timers := remove1 j (timers s),
             completed := AList.update (job_id j) (result, now) (completed s),
             running := AList.delete (job_id j) (running s),
             promises := settle (handle j) (Resolved result) (promises s) \<rparr>)"

text \<open>
  The \<^verbatim>\<open>catch\<close> branch, resumed when the executor's promise is rejected (as the
  placeholder \<^verbatim>\<open>executeJob\<close> of the class itself always does). The timeout stays set.
\<close>

definition executorRejects :: "nat \<Rightarrow> string \<Rightarrow> queue_state \<Rightarrow> queue_state" where
  "executorRejects h err s =
     (case find (\<lambda>j. handle j = h) (awaiting s) of
        None \<Rightarrow> s
      | Some j \<Rightarrow>
          s\<lparr> awaiting := remove1 j (awaiting s),
             running := AList.delete (job_id j) (running s),
             promises := settle (handle j) (Rejected (ExecutionError err)) (promises s) \<rparr>)"

text \<open>\<^verbatim>\<open>cancelJob\<close>: a queued job first, then a running one.\<close>

definition cancelJob :: "string \<Rightarrow> queue_state \<Rightarrow> bool \<times> queue_state" where
  "cancelJob ident s =
     (case find (\<lambda>j. job_id j = ident) (queue s) of
        Some j \<Rightarrow>
          (True, s\<lparr> queue := remove1 j (queue s),
                    promises := settle (handle j) (Rejected JobCancelled) (promises s) \<rparr>)
      | None \<Rightarrow>
          (case map_of (running s) ident of
             Some j \<Rightarrow>
               (True, s\<lparr> promises := settle (handle j) (Rejected JobCancelled) (promises s),
                         running := AList.delete ident (running s) \<rparr>)
           | None \<Rightarrow> (False, s)))"

text \<open>
  What can happen to a queue: a submission, a tick of the one-second interval
  (\<^verbatim>\<open>processQueue\<close> then \<^verbatim>\<open>cleanupCompleted\<close>, each reading the clock), a timeout firing,
  the executor answering, a cancellation.
\<close>

datatype event =
    AddJob string string string int
  | Tick int int
  | TimeoutFires nat
  | ExecutorResolves nat string int
  | ExecutorRejects nat string
  | CancelJob string

fun step :: "performance_config \<Rightarrow> event \<Rightarrow> queue_state \<Rightarrow> queue_state" where
  "step cfg (AddJob ident type payload prio) s = addJob ident type payload prio s"
| "step cfg (Tick now now') s = cleanupCompleted now' (snd (processQueue cfg now s))"
| "step cfg (TimeoutFires h) s = timeoutFires cfg h s"
| "step cfg (ExecutorResolves h result now) s = executorResolves h result now s"
| "step cfg (ExecutorRejects h err) s = executorRejects h err s"
| "step cfg (CancelJob ident) s = snd (cancelJob ident s)"

fun run :: "performance_config \<Rightarrow> queue_state \<Rightarrow> event list \<Rightarrow> queue_state" where
  "run cfg s [] = s"
| "run cfg s (ev # evs) = run cfg (step cfg ev s) evs"

text \<open>
  The calls of \<^verbatim>\<open>executeJob\<close> made while an event is handled. The call in \<^verbatim>\<open>startJob\<close> is
  the only place where the queue addresses the executor.
\<close>

fun executorCalls :: "performance_config \<Rightarrow> event \<Rightarrow> queue_state \<Rightarrow> job list" where
  "executorCalls cfg (Tick now now') s =
     (case fst (processQueue cfg now s) of None \<Rightarrow> [] | Some j \<Rightarrow> [j])"
| "executorCalls cfg _ s = []"

fun dispatchOrder :: "performance_config \<Rightarrow> queue_state \<Rightarrow> event list \<Rightarrow> job list" where
  "dispatchOrder cfg s [] = []"
| "dispatchOrder cfg s (ev # evs) = executorCalls cfg ev s @ dispatchOrder cfg (step cfg ev s) evs"

text \<open>Successive ticks of the interval, given by the clock readings of each.\<close>

definition ticks :: "(int \<times> int) list \<Rightarrow> event list" where
  "ticks ts = map (\<lambda>(now, now'). Tick now now') ts"

text \<open>
  Submission order. \<^verbatim>\<open>addJob\<close> gives the \<open>n\<close>-th submitted job the \<open>n\<close>-th promise, so among
  jobs of one priority the earlier submitted one has the smaller handle. \<open>queueOrdered\<close>
  says that the queue lists jobs of equal priority in that order.
\<close>

fun isAddJob :: "event \<Rightarrow> bool" where
  "isAddJob (AddJob ident type payload prio) = True"
| "isAddJob _ = False"

definition earlier :: "job \<Rightarrow> job \<Rightarrow> bool" where
  "earlier a b = (priority a = priority b \<longrightarrow> handle a < handle b)"

definition queueOrdered :: "queue_state \<Rightarrow> bool" where
  "queueOrdered s = (sorted_wrt earlier (queue s)
                     \<and> (\<forall>j\<in>set (queue s). handle j < length (promises s)))"

text \<open>
  The scenario of the specification: ceiling 2, three submissions of priorities 1, 5 and
  3, two ticks, the first dispatched job finishing, a third tick.
\<close>

definition scenarioConfig :: performance_config where
  "scenarioConfig = \<lparr> enableCaching = True, cacheSize = 5, maxConcurrentJobs = 2,
                       queueTimeout = 100 \<rparr>"

definition scenarioEvents :: "event list" where
  "scenarioEvents =
     [AddJob ''convert-1'' ''convert'' ''a.mp4'' 1,
      AddJob ''convert-2'' ''convert'' ''b.mp4'' 5,
      AddJob ''convert-3'' ''convert'' ''c.mp4'' 3,
      Tick 1000 1000, Tick 2000 2000, ExecutorResolves 1 ''done'' 2500, Tick 3000 3000]"

section \<open>Result cache\<close>

text \<open>
  \<^verbatim>\<open>CacheManager\<close> (cache.ts). The \<^verbatim>\<open>Map\<close> from keys to entries is an association list in
  insertion order; the payload type is a parameter.
\<close>

record 'm cache_entry =
  data :: 'm
  timestamp :: int
  accessCount :: nat

type_synonym 'm media_cache = "(string \<times> 'm cache_entry) list"

definition generateCacheKey :: "string \<Rightarrow> string \<Rightarrow> string" where
  "generateCacheKey filePath operation = operation @ '':'' @ filePath"

text \<open>
  \<^verbatim>\<open>cleanupCache\<close>. The comparator divides floating-point numbers and reads the clock at
  every comparison, so the order in which \<^verbatim>\<open>sort\<close> leaves the entries is the parameter
  \<open>byScore\<close>. For a natural number \<open>n\<close>, \<^verbatim>\<open>Math.floor(n * 0.2)\<close> is \<open>n div 5\<close>.
\<close>

definition cleanupCache ::
  "('m media_cache \<Rightarrow> 'm media_cache) \<Rightarrow> performance_config \<Rightarrow> 'm media_cache \<Rightarrow> 'm media_cache"
  where
  "cleanupCache byScore cfg c =
     (if length c \<le> cacheSize cfg then c
      else fold (\<lambda>(key, entry). AList.delete key) (take (cacheSize cfg div 5) (byScore c)) c)"

text \<open>
  \<^verbatim>\<open>getMediaInfo\<close>. \<open>stat\<close> is what \<^verbatim>\<open>fs.statSync(filePath).mtime.getTime()\<close> yields, \<open>None\<close>
  when \<^verbatim>\<open>statSync\<close> throws. The result is the returned payload (\<open>None\<close> for \<^verbatim>\<open>null\<close>) and
  the cache afterwards.
\<close>

definition getMediaInfo ::
  "performance_config \<Rightarrow> int option \<Rightarrow> string \<Rightarrow> 'm media_cache \<Rightarrow> 'm option \<times> 'm media_cache"
  where
  "getMediaInfo cfg stat filePath c =
     (if \<not> enableCaching cfg then (None, c)
      else let key = generateCacheKey filePath ''mediaInfo'' in
        case map_of c key of
          None \<Rightarrow> (None, c)
        | Some entry \<Rightarrow>
            (case stat of
               None \<Rightarrow> (None, AList.delete key c)
             | Some mtime \<Rightarrow>
                 if mtime > timestamp entry then (None, AList.delete key c)
                 else (Some (data entry),
                       AList.update key (entry\<lparr> accessCount := accessCount entry + 1 \<rparr>) c)))"

text \<open>
  \<^verbatim>\<open>setMediaInfo\<close>. For natural numbers, \<^verbatim>\<open>size > maxSize * 1.2\<close> is \<open>5 * size > 6 * maxSize\<close>.
\<close>

definition setMediaInfo ::
  "('m media_cache \<Rightarrow> 'm media_cache) \<Rightarrow> performance_config \<Rightarrow> int \<Rightarrow> string \<Rightarrow> 'm
     \<Rightarrow> 'm media_cache \<Rightarrow> 'm media_cache"
  where
  "setMediaInfo byScore cfg now filePath info c =
     (if \<not> enableCaching cfg then c
      else let key = generateCacheKey filePath ''mediaInfo'';
               c' = AList.update key \<lparr> data = info, timestamp = now, accessCount = 1 \<rparr> c
           in if 5 * length c' > 6 * cacheSize cfg then cleanupCache byScore cfg c' else c')"

definition invalidateMediaInfo :: "string \<Rightarrow> 'm media_cache \<Rightarrow> 'm media_cache" where
  "invalidateMediaInfo filePath c = AList.delete (generateCacheKey filePath ''mediaInfo'') c"

definition clearCache :: "'m media_cache \<Rightarrow> 'm media_cache" where
  "clearCache c = []"

datatype 'm cache_event =
    GetMediaInfo "int option" string
  | SetMediaInfo int string 'm
  | InvalidateMediaInfo string
  | ClearCache
  | CleanupCache

fun cacheStep ::
  "('m media_cache \<Rightarrow> 'm media_cache) \<Rightarrow> performance_config \<Rightarrow> 'm cache_event
     \<Rightarrow> 'm media_cache \<Rightarrow> 'm media_cache"
  where
  "cacheStep byScore cfg (GetMediaInfo stat filePath) c = snd (getMediaInfo cfg stat filePath c)"
| "cacheStep byScore cfg (SetMediaInfo now filePath info) c =
     setMediaInfo byScore cfg now filePath info c"
| "cacheStep byScore cfg (InvalidateMediaInfo filePath) c = invalidateMediaInfo filePath c"
| "cacheStep byScore cfg ClearCache c = clearCache c"
| "cacheStep byScore cfg CleanupCache c = cleanupCache byScore cfg c"

text \<open>The cache after a history of calls, starting from the empty \<^verbatim>\<open>Map\<close> of the constructor.\<close>

definition cacheAfter ::
  "('m media_cache \<Rightarrow> 'm media_cache) \<Rightarrow> performance_config \<Rightarrow> 'm cache_event list
     \<Rightarrow> 'm media_cache"
  where
  "cacheAfter byScore cfg evs = fold (cacheStep byScore cfg) evs []"

text \<open>
  Seven files are cached one after the other in a cache of maximum size 5 (the size of
  \<open>scenarioConfig\<close>). \<open>sevenEntries\<close> is the \<^verbatim>\<open>Map\<close> as the seventh \<^verbatim>\<open>set\<close> leaves it.
\<close>

definition sevenFiles :: "(int \<times> string \<times> string) list" where
  "sevenFiles =
     [(1, ''/tmp/a.mp4'', ''a''), (2, ''/tmp/b.mp4'', ''b''), (3, ''/tmp/c.mp4'', ''c''),
      (4, ''/tmp/d.mp4'', ''d''), (5, ''/tmp/e.mp4'', ''e''), (6, ''/tmp/f.mp4'', ''f''),
      (7, ''/tmp/g.mp4'', ''g'')]"

definition sevenInserts :: "string cache_event list" where
  "sevenInserts = map (\<lambda>(now, filePath, info). SetMediaInfo now filePath info) sevenFiles"

definition sevenEntries :: "string media_cache" where
  "sevenEntries =
     map (\<lambda>(now, filePath, info).
            (generateCacheKey filePath ''mediaInfo'',
             \<lparr> data = info, timestamp = now, accessCount = 1 \<rparr>)) sevenFiles"

section \<open>Rate limiter\<close>

text \<open>\<^verbatim>\<open>SecurityManager.checkRateLimit\<close> and \<^verbatim>\<open>cleanupRateLimitMap\<close> (security.ts).\<close>

record rate_limit_entry =
  count :: nat
  windowStart :: int

record limiter_state =
  rateLimitMap :: "(string \<times> rate_limit_entry) list"
  blockedIPs :: "string set"

definition initialLimiter :: limiter_state where
  "initialLimiter = \<lparr> rateLimitMap = [], blockedIPs = {} \<rparr>"

definition checkRateLimit ::
  "security_config \<Rightarrow> int \<Rightarrow> string \<Rightarrow> limiter_state \<Rightarrow> bool \<times> limiter_state" where
  "checkRateLimit cfg now clientId s =
     (if clientId \<in> blockedIPs s then (False, s)
      else case map_of (rateLimitMap s) clientId of
        None \<Rightarrow>
          (True, s\<lparr> rateLimitMap :=
                      AList.update clientId \<lparr> count = 1, windowStart = now \<rparr> (rateLimitMap s) \<rparr>)
      | Some entry \<Rightarrow>
          if now - windowStart entry > rateLimitWindow cfg * 1000
          then (True, s\<lparr> rateLimitMap :=
                      AList.update clientId \<lparr> count = 1, windowStart = now \<rparr> (rateLimitMap s) \<rparr>)
          else let entry' = entry\<lparr> count := count entry + 1 \<rparr> in
            if count entry' > rateLimitMaxRequests cfg
            then (False, s\<lparr> rateLimitMap := AList.update clientId entry' (rateLimitMap s),
                            blockedIPs := insert clientId (blockedIPs s) \<rparr>)
            else (True, s\<lparr> rateLimitMap := AList.update clientId entry' (rateLimitMap s) \<rparr>))"

definition cleanupRateLimitMap :: "security_config \<Rightarrow> int \<Rightarrow> limiter_state \<Rightarrow> limiter_state" where
  "cleanupRateLimitMap cfg now s =
     s\<lparr> rateLimitMap :=
          filter (\<lambda>(ip, entry). \<not> now - windowStart entry > rateLimitWindow cfg * 1000)
            (rateLimitMap s) \<rparr>"

text \<open>
  A history of the limiter: requests of clients and runs of the periodic cleanup, each at
  the time the clock shows. \<open>replies\<close> lists what one client is told, in order.
\<close>

datatype limiter_event = Request string int | Cleanup int

fun limiterStep :: "security_config \<Rightarrow> limiter_event \<Rightarrow> limiter_state \<Rightarrow> limiter_state" where
  "limiterStep cfg (Request clientId now) s = snd (checkRateLimit cfg now clientId s)"
| "limiterStep cfg (Cleanup now) s = cleanupRateLimitMap cfg now s"

fun limiterRun :: "security_config \<Rightarrow> limiter_state \<Rightarrow> limiter_event list \<Rightarrow> limiter_state" where
  "limiterRun cfg s [] = s"
| "limiterRun cfg s (ev # evs) = limiterRun cfg (limiterStep cfg ev s) evs"

fun replies :: "security_config \<Rightarrow> string \<Rightarrow> limiter_state \<Rightarrow> limiter_event list \<Rightarrow> bool list" where
  "replies cfg c s [] = []"
| "replies cfg c s (Request clientId now # evs) =
     (if clientId = c then [fst (checkRateLimit cfg now clientId s)] else [])
       @ replies cfg c (limiterStep cfg (Request clientId now) s) evs"
| "replies cfg c s (Cleanup now # evs) = replies cfg c (limiterStep cfg (Cleanup now) s) evs"

text \<open>
  An event lies within the window that a client \<open>c\<close> opened at \<open>start\<close> when it is a
  request of \<open>c\<close>, or a cleanup, at a time that \<^verbatim>\<open>checkRateLimit\<close> and
  \<^verbatim>\<open>cleanupRateLimitMap\<close> do not count as past the window. Requests of other clients are
  not constrained.
\<close>

fun isRequestBy :: "string \<Rightarrow> limiter_event \<Rightarrow> bool" where
  "isRequestBy c (Request clientId now) = (clientId = c)"
| "isRequestBy c (Cleanup now) = False"

fun inWindow :: "security_config \<Rightarrow> string \<Rightarrow> int \<Rightarrow> limiter_event \<Rightarrow> bool" where
  "inWindow cfg c start (Request clientId now) =
     (clientId = c \<longrightarrow> \<not> now - start > rateLimitWindow cfg * 1000)"
| "inWindow cfg c start (Cleanup now) = (\<not> now - start > rateLimitWindow cfg * 1000)"

text \<open>The limit of the specification's scenario: three requests in sixty seconds.\<close>

definition threePerMinute :: security_config where
  "threePerMinute = (defaultSecurity ''/srv'')\<lparr> rateLimitMaxRequests := 3 \<rparr>"

definition nonePerMinute :: security_config where
  "nonePerMinute = (defaultSecurity ''/srv'')\<lparr> rateLimitMaxRequests := 0 \<rparr>"

section \<open>Properties of the job scheduler\<close>

lemmas queue_defs = initialQueue_def addJob_def startJob_def byPriority_def processQueue_def
  cleanupCompleted_def timeoutFires_def executorResolves_def executorRejects_def cancelJob_def
  settle_def

lemmas scenario_defs = scenarioConfig_def scenarioEvents_def

subsection \<open>The promise store\<close>

lemma settle_length [simp]: "length (settle h v ps) = length ps"
  by (simp add: settle_def)

lemma settle_settled: "ps ! h \<noteq> Pending \<Longrightarrow> settle h' v ps ! h = ps ! h"
  by (cases "h' = h") (auto simp: settle_def)

subsection \<open>The concurrency ceiling\<close>

lemma length_update_le: "length (AList.update k v al) \<le> Suc (length al)"
  by (induction al) auto

lemma step_running_bound:
  assumes "length (running s) \<le> maxConcurrentJobs cfg"
  shows "length (running (step cfg ev s)) \<le> maxConcurrentJobs cfg"
proof (cases ev)
  case (Tick now now')
  have "length (running (snd (processQueue cfg now s))) \<le> maxConcurrentJobs cfg"
  proof (cases "length (running s) < maxConcurrentJobs cfg \<and> queue s \<noteq> []")
    case True
    then show ?thesis
      by (simp add: processQueue_def startJob_def Let_def le_trans [OF length_update_le])
  next
    case False
    with assms show ?thesis by (auto simp: processQueue_def)
  qed
  with Tick show ?thesis by (simp add: cleanupCompleted_def)
next
  case (AddJob ident type payload prio)
  with assms show ?thesis by (simp add: addJob_def)
next
  case (TimeoutFires h)
  with assms show ?thesis
    by (auto simp: timeoutFires_def split: option.splits intro: le_trans [OF length_delete_le])
next
  case (ExecutorResolves h result now)
  with assms show ?thesis
    by (auto simp: executorResolves_def split: option.splits intro: le_trans [OF length_delete_le])
next
  case (ExecutorRejects h err)
  with assms show ?thesis
    by (auto simp: executorRejects_def split: option.splits intro: le_trans [OF length_delete_le])
next
  case (CancelJob ident)
  with assms show ?thesis
    by (auto simp: cancelJob_def split: option.splits intro: le_trans [OF length_delete_le])
qed

lemma step_running_distinct:
  assumes "distinct (map fst (running s))"
  shows "distinct (map fst (running (step cfg ev s)))"
  using assms
  by (cases ev)
     (auto simp: addJob_def processQueue_def startJob_def Let_def cleanupCompleted_def
        timeoutFires_def executorResolves_def executorRejects_def cancelJob_def
        distinct_update distinct_delete split: option.splits)

lemma run_running_bound:
  "length (running s) \<le> maxConcurrentJobs cfg \<Longrightarrow>
   length (running (run cfg s evs)) \<le> maxConcurrentJobs cfg"
  by (induction evs arbitrary: s) (auto simp: step_running_bound)

lemma run_running_distinct:
  "distinct (map fst (running s)) \<Longrightarrow> distinct (map fst (running (run cfg s evs)))"
  by (induction evs arbitrary: s) (auto simp: step_running_distinct)

text \<open>
  Claim C1. Whatever happens to a fresh queue (submissions, ticks, timeouts, answers of
  the executor, cancellations), the running set has at most \<^verbatim>\<open>maxConcurrentJobs\<close> entries;
  its keys are distinct, so the length of the list is the size of the \<^verbatim>\<open>Map\<close>. And a tick
  hands a job to \<^verbatim>\<open>startJob\<close> only in a state whose running set is strictly below the
  ceiling.
\<close>

theorem running_never_exceeds_ceiling:
  "length (running (run cfg initialQueue evs)) \<le> maxConcurrentJobs cfg
   \<and> distinct (map fst (running (run cfg initialQueue evs)))
   \<and> (fst (processQueue cfg now s) \<noteq> None \<longrightarrow> length (running s) < maxConcurrentJobs cfg)"
proof -
  have "length (running initialQueue) \<le> maxConcurrentJobs cfg"
    and "distinct (map fst (running initialQueue))"
    by (simp_all add: initialQueue_def)
  then show ?thesis
    using run_running_bound run_running_distinct
    by (auto simp: processQueue_def split: if_splits)
qed

theorem running_never_exceeds_ceiling_witness:
  "length (running (run scenarioConfig initialQueue scenarioEvents)) \<le> maxConcurrentJobs scenarioConfig
   \<and> fst (processQueue scenarioConfig 1000 (run scenarioConfig initialQueue (take 3 scenarioEvents)))
       \<noteq> None
   \<and> length (running (run scenarioConfig initialQueue (take 3 scenarioEvents)))
       < maxConcurrentJobs scenarioConfig"
  using running_never_exceeds_ceiling
    [of scenarioConfig scenarioEvents 1000 "run scenarioConfig initialQueue (take 3 scenarioEvents)"]
  by (simp add: queue_defs scenario_defs Let_def)

subsection \<open>Dispatch order\<close>

lemma insort_earlier:
  "sorted_wrt earlier xs \<Longrightarrow> \<forall>y\<in>set xs. earlier x y \<Longrightarrow>
   sorted_wrt earlier (insort_key (\<lambda>j. - priority j) x xs)"
proof (induction xs)
  case Nil
  then show ?case by simp
next
  case (Cons y ys)
  show ?case
  proof (cases "- priority x \<le> - priority y")
    case True
    with Cons.prems show ?thesis by simp
  next
    case False
    then have "earlier y x" by (simp add: earlier_def)
    with False Cons show ?thesis by (auto simp: set_insort_key)
  qed
qed

lemma byPriority_earlier: "sorted_wrt earlier q \<Longrightarrow> sorted_wrt earlier (byPriority q)"
  unfolding byPriority_def
  by (induction q) (auto intro: insort_earlier)

lemma sorted_wrt_remove1: "sorted_wrt P xs \<Longrightarrow> sorted_wrt P (remove1 x xs)"
  by (induction xs) (auto dest: notin_set_remove1)

lemma sorted_wrt_tl: "sorted_wrt P xs \<Longrightarrow> sorted_wrt P (tl xs)"
  by (cases xs) auto

lemma set_tl_subset: "x \<in> set (tl xs) \<Longrightarrow> x \<in> set xs"
  by (cases xs) auto

lemma step_queueOrdered:
  assumes "queueOrdered s"
  shows "queueOrdered (step cfg ev s)"
proof (cases ev)
  case (AddJob ident type payload prio)
  with assms show ?thesis
    by (auto simp: queueOrdered_def addJob_def sorted_wrt_append earlier_def less_Suc_eq)
next
  case (Tick now now')
  have "sorted_wrt earlier (tl (byPriority (queue s)))"
    using assms by (simp add: queueOrdered_def byPriority_earlier sorted_wrt_tl)
  moreover have "\<forall>j\<in>set (tl (byPriority (queue s))). handle j < length (promises s)"
    using assms set_tl_subset [of _ "byPriority (queue s)"]
    by (auto simp: queueOrdered_def byPriority_def)
  ultimately show ?thesis
    using assms Tick
    by (auto simp: queueOrdered_def processQueue_def startJob_def Let_def cleanupCompleted_def)
next
  case (TimeoutFires h)
  with assms show ?thesis
    by (auto simp: queueOrdered_def timeoutFires_def split: option.splits)
next
  case (ExecutorResolves h result now)
  with assms show ?thesis
    by (auto simp: queueOrdered_def executorResolves_def split: option.splits)
next
  case (ExecutorRejects h err)
  with assms show ?thesis
    by (auto simp: queueOrdered_def executorRejects_def split: option.splits)
next
  case (CancelJob ident)
  with assms show ?thesis
    by (auto simp: queueOrdered_def cancelJob_def sorted_wrt_remove1
          split: option.splits dest: notin_set_remove1)
qed

lemma run_queueOrdered: "queueOrdered s \<Longrightarrow> queueOrdered (run cfg s evs)"
  by (induction evs arbitrary: s) (auto simp: step_queueOrdered)

lemma run_promises_count:
  "length (promises (run cfg s evs)) = length (promises s) + length (filter isAddJob evs)"
proof (induction evs arbitrary: s)
  case Nil
  then show ?case by simp
next
  case (Cons ev evs)
  have "length (promises (step cfg ev s)) = length (promises s) + (if isAddJob ev then 1 else 0)"
    by (cases ev)
       (auto simp: addJob_def processQueue_def startJob_def Let_def cleanupCompleted_def
          timeoutFires_def executorResolves_def executorRejects_def cancelJob_def settle_def
          split: option.splits)
  with Cons.IH [of "step cfg ev s"] show ?case by simp
qed

lemma hd_byPriority:
  assumes "sorted_wrt earlier q" and "q \<noteq> []" and "b \<in> set q"
  shows "hd (byPriority q) \<in> set q \<and> priority b \<le> priority (hd (byPriority q))
         \<and> (priority b = priority (hd (byPriority q)) \<and> b \<noteq> hd (byPriority q)
              \<longrightarrow> handle (hd (byPriority q)) < handle b)"
proof -
  obtain j rest where jr: "byPriority q = j # rest"
  proof (cases "byPriority q")
    case Nil
    then have "length q = 0" by (metis byPriority_def length_sort list.size(3))
    with assms(2) show ?thesis by simp
  next
    case (Cons j rest)
    then show ?thesis using that by simp
  qed
  have mem: "set (j # rest) = set q"
    using jr by (metis byPriority_def set_sort)
  have "sorted (map (\<lambda>j. - priority j) (j # rest))"
    using jr by (metis byPriority_def sorted_sort_key)
  then have le: "\<forall>x\<in>set rest. priority x \<le> priority j" by auto
  have "sorted_wrt earlier (j # rest)"
    using assms(1) jr byPriority_earlier by metis
  then have lt: "\<forall>x\<in>set rest. earlier j x" by simp
  have "b = j \<or> b \<in> set rest" using assms(3) mem by auto
  then show ?thesis using jr le lt mem by (auto simp: earlier_def)
qed

text \<open>
  Claim C2. In any state a fresh queue can reach, when a tick dispatches a job \<open>j\<close>, every
  job \<open>b\<close> pending at that moment has a priority no greater than that of \<open>j\<close>, and if \<open>b\<close>
  is another job of the same priority then \<open>j\<close> has the smaller handle, that is, \<open>j\<close> was
  submitted before \<open>b\<close>: the job created by a submission has as its handle the number of
  submissions before it. So a job of higher priority, or of equal priority and submitted
  earlier, is never overtaken. In the scenario (ceiling 2, priorities 1, 5, 3) the jobs are
  dispatched in the order 5, 3, 1.
\<close>

theorem dispatch_by_priority_then_submission:
  "(processQueue cfg now (run cfg initialQueue evs) = (Some j, s')
      \<and> b \<in> set (queue (run cfg initialQueue evs))
    \<longrightarrow> j \<in> set (queue (run cfg initialQueue evs))
        \<and> priority b \<le> priority j
        \<and> (priority b = priority j \<and> b \<noteq> j \<longrightarrow> handle j < handle b))
   \<and> handle (last (queue (step cfg (AddJob ident type payload prio) (run cfg initialQueue evs'))))
       = length (filter isAddJob evs')
   \<and> map priority (dispatchOrder scenarioConfig initialQueue scenarioEvents) = [5, 3, 1]"
proof -
  let ?s = "run cfg initialQueue evs"
  have "queueOrdered initialQueue" by (simp add: queueOrdered_def initialQueue_def)
  then have ord: "sorted_wrt earlier (queue ?s)"
    using run_queueOrdered [of initialQueue cfg evs] by (simp add: queueOrdered_def)
  have first: "j \<in> set (queue ?s) \<and> priority b \<le> priority j
        \<and> (priority b = priority j \<and> b \<noteq> j \<longrightarrow> handle j < handle b)"
    if "processQueue cfg now ?s = (Some j, s')" and "b \<in> set (queue ?s)"
  proof -
    have "queue ?s \<noteq> []" and "j = hd (byPriority (queue ?s))"
      using that(1) by (auto simp: processQueue_def Let_def split: if_splits)
    then show ?thesis using hd_byPriority [OF ord _ that(2)] by simp
  qed
  have second:
    "handle (last (queue (step cfg (AddJob ident type payload prio) (run cfg initialQueue evs'))))
       = length (filter isAddJob evs')"
    using run_promises_count [of cfg initialQueue evs']
    by (simp add: addJob_def initialQueue_def)
  have third: "map priority (dispatchOrder scenarioConfig initialQueue scenarioEvents) = [5, 3, 1]"
    by (simp add: queue_defs scenario_defs Let_def)
  show ?thesis using first second third by blast
qed

theorem dispatch_by_priority_then_submission_witness:
  "fst (processQueue scenarioConfig 1000 (run scenarioConfig initialQueue (take 3 scenarioEvents)))
     = Some \<lparr> job_id = ''convert-2'', job_type = ''convert'', args = ''b.mp4'', priority = 5,
              startTime = None, handle = 1 \<rparr>
   \<and> \<lparr> job_id = ''convert-3'', job_type = ''convert'', args = ''c.mp4'', priority = 3,
        startTime = None, handle = 2 \<rparr>
       \<in> set (queue (run scenarioConfig initialQueue (take 3 scenarioEvents)))
   \<and> (3::int) \<le> 5
   \<and> handle (last (queue (step scenarioConfig (AddJob ''convert-3'' ''convert'' ''c.mp4'' 3)
        (run scenarioConfig initialQueue (take 2 scenarioEvents))))) = 2"
  using dispatch_by_priority_then_submission
    [of scenarioConfig 1000 "take 3 scenarioEvents"
        "\<lparr> job_id = ''convert-2'', job_type = ''convert'', args = ''b.mp4'', priority = 5,
           startTime = None, handle = 1 \<rparr>"
        "snd (processQueue scenarioConfig 1000
           (run scenarioConfig initialQueue (take 3 scenarioEvents)))"
        "\<lparr> job_id = ''convert-3'', job_type = ''convert'', args = ''c.mp4'', priority = 3,
           startTime = None, handle = 2 \<rparr>"
        "''convert-3''" "''convert''" "''c.mp4''" 3 "take 2 scenarioEvents"]
  by (simp add: queue_defs scenario_defs Let_def)

subsection \<open>One job for each tick\<close>

lemma byPriority_nonempty: "q \<noteq> [] \<Longrightarrow> byPriority q \<noteq> []"
proof
  assume "q \<noteq> []" and "byPriority q = []"
  then have "length q = 0" by (metis byPriority_def length_sort list.size(3))
  with \<open>q \<noteq> []\<close> show False by simp
qed

lemma byPriority_tl_sorted: "byPriority (tl (byPriority q)) = tl (byPriority q)"
proof -
  have "sorted (map (\<lambda>j. - priority j) (byPriority q))"
    by (simp add: byPriority_def)
  then have "sorted (map (\<lambda>j. - priority j) (tl (byPriority q)))"
    by (simp add: map_tl sorted_tl)
  then show ?thesis
    unfolding byPriority_def by (rule sort_key_id_if_sorted)
qed

lemma hd_byPriority_highest:
  assumes "q \<noteq> []" and "b \<in> set q"
  shows "priority b \<le> priority (hd (byPriority q))"
proof -
  obtain j rest where jr: "byPriority q = j # rest"
    using byPriority_nonempty [OF assms(1)] by (cases "byPriority q") auto
  have "sorted (map (\<lambda>j. - priority j) (j # rest))"
    using jr by (metis byPriority_def sorted_sort_key)
  then have "\<forall>x\<in>set rest. priority x \<le> priority j" by auto
  moreover have "b = j \<or> b \<in> set rest"
    using assms(2) jr by (metis byPriority_def set_sort set_ConsD)
  ultimately show ?thesis using jr by auto
qed

lemma hd_byPriority_first:
  assumes "q \<noteq> []"
  shows "hd (filter (\<lambda>b. priority b = priority (hd (byPriority q))) q) = hd (byPriority q)"
proof -
  obtain j rest where jr: "byPriority q = j # rest"
    using byPriority_nonempty [OF assms] by (cases "byPriority q") auto
  have "filter (\<lambda>b. - priority b = - priority j) (byPriority q)
          = filter (\<lambda>b. - priority b = - priority j) q"
    unfolding byPriority_def by (rule sort_key_stable)
  then have "filter (\<lambda>b. priority b = priority j) q
          = j # filter (\<lambda>b. priority b = priority j) rest"
    using jr by simp
  then show ?thesis using jr by simp
qed

lemma hd_byPriority_member: "q \<noteq> [] \<Longrightarrow> hd (byPriority q) \<in> set q"
  using byPriority_nonempty [of q] by (metis byPriority_def hd_in_set set_sort)

lemma tick_queue:
  "queue (step cfg (Tick now now') s) =
     (if length (running s) < maxConcurrentJobs cfg \<and> queue s \<noteq> []
      then tl (byPriority (queue s)) else queue s)"
  by (simp add: processQueue_def startJob_def Let_def cleanupCompleted_def)

lemma tick_running:
  "running (step cfg (Tick now now') s) =
     (if length (running s) < maxConcurrentJobs cfg \<and> queue s \<noteq> []
      then AList.update (job_id (hd (byPriority (queue s))))
             ((hd (byPriority (queue s)))\<lparr> startTime := Some now \<rparr>) (running s)
      else running s)"
  by (simp add: processQueue_def startJob_def Let_def cleanupCompleted_def)

lemma tick_calls:
  "executorCalls cfg (Tick now now') s =
     (if length (running s) < maxConcurrentJobs cfg \<and> queue s \<noteq> []
      then [hd (byPriority (queue s))] else [])"
  by (simp add: processQueue_def Let_def)

lemma ticks_dispatch:
  "length ts + length (running s) \<le> maxConcurrentJobs cfg \<Longrightarrow> length ts \<le> length (queue s) \<Longrightarrow>
   dispatchOrder cfg s (ticks ts) = take (length ts) (byPriority (queue s))"
proof (induction ts arbitrary: s)
  case Nil
  then show ?case by (simp add: ticks_def)
next
  case (Cons t ts)
  obtain now now' where t: "t = (now, now')" by (cases t)
  let ?s1 = "step cfg (Tick now now') s"
  have free: "length (running s) < maxConcurrentJobs cfg \<and> queue s \<noteq> []"
    using Cons.prems by auto
  have q1: "queue ?s1 = tl (byPriority (queue s))"
    using free by (simp add: tick_queue del: step.simps)
  have "length (running ?s1) \<le> Suc (length (running s))"
    using free by (simp add: tick_running length_update_le del: step.simps)
  then have a: "length ts + length (running ?s1) \<le> maxConcurrentJobs cfg"
    using Cons.prems(1) by simp
  have b: "length ts \<le> length (queue ?s1)"
    using Cons.prems(2) q1 by (simp add: byPriority_def)
  have ne: "byPriority (queue s) \<noteq> []"
    using free by (simp add: byPriority_nonempty)
  have "dispatchOrder cfg ?s1 (ticks ts) = take (length ts) (tl (byPriority (queue s)))"
    using Cons.IH [OF a b] q1 by (simp add: byPriority_tl_sorted)
  moreover have "executorCalls cfg (Tick now now') s = [hd (byPriority (queue s))]"
    using free by (simp add: tick_calls del: executorCalls.simps)
  moreover have "hd (byPriority (queue s)) # take (length ts) (tl (byPriority (queue s)))
                   = take (Suc (length ts)) (byPriority (queue s))"
    using ne by (cases "byPriority (queue s)") simp_all
  ultimately show ?case
    using t by (simp add: ticks_def del: step.simps executorCalls.simps)
qed

text \<open>
  Claim C8 fails as stated. In the scenario, after the three submissions two slots are
  free and three jobs are pending, and the tick hands one job to the executor, not two.
\<close>

theorem tick_dispatches_one_of_two_free_slots:
  "maxConcurrentJobs scenarioConfig
     - length (running (run scenarioConfig initialQueue (take 3 scenarioEvents))) = 2
   \<and> length (queue (run scenarioConfig initialQueue (take 3 scenarioEvents))) = 3
   \<and> length (executorCalls scenarioConfig (Tick 1000 1000)
        (run scenarioConfig initialQueue (take 3 scenarioEvents))) = 1
   \<and> length (running (run scenarioConfig initialQueue (take 4 scenarioEvents))) = 1
   \<and> length (queue (run scenarioConfig initialQueue (take 4 scenarioEvents))) = 2"
  by (simp add: queue_defs scenario_defs Let_def)

text \<open>
  Claim C8, amended. A tick admits at most one job: when the running set is below the
  ceiling and a job is pending, the job at the head of the queue sorted by priority,
  which has the highest priority of the pending jobs and is the first of that priority
  in the queue; and none otherwise. The admitted job leaves the queue and is entered in
  the running set under its identifier, so the queue shrinks by the number of jobs
  admitted and the running set grows by no more. When \<open>k\<close> slots are free and at least
  \<open>k\<close> jobs are pending, \<open>k\<close> successive ticks dispatch \<open>k\<close> jobs, one each: the first \<open>k\<close>
  of the queue sorted by priority, in that order.
\<close>

theorem tick_dispatches_at_most_one:
  "executorCalls cfg (Tick now now') s =
     (if length (running s) < maxConcurrentJobs cfg \<and> queue s \<noteq> []
      then [hd (byPriority (queue s))] else [])
   \<and> length (queue (step cfg (Tick now now') s))
       = length (queue s) - length (executorCalls cfg (Tick now now') s)
   \<and> length (running (step cfg (Tick now now') s))
       \<le> length (running s) + length (executorCalls cfg (Tick now now') s)
   \<and> queue (step cfg (Tick now now') s) =
       (if length (running s) < maxConcurrentJobs cfg \<and> queue s \<noteq> []
        then tl (byPriority (queue s)) else queue s)
   \<and> running (step cfg (Tick now now') s) =
       (if length (running s) < maxConcurrentJobs cfg \<and> queue s \<noteq> []
        then AList.update (job_id (hd (byPriority (queue s))))
               ((hd (byPriority (queue s)))\<lparr> startTime := Some now \<rparr>) (running s)
        else running s)
   \<and> (queue s \<noteq> [] \<and> b \<in> set (queue s)
        \<longrightarrow> hd (byPriority (queue s)) \<in> set (queue s)
            \<and> priority b \<le> priority (hd (byPriority (queue s)))
            \<and> hd (filter (\<lambda>a. priority a = priority (hd (byPriority (queue s)))) (queue s))
                = hd (byPriority (queue s)))
   \<and> (length ts + length (running s) \<le> maxConcurrentJobs cfg \<and> length ts \<le> length (queue s)
        \<longrightarrow> dispatchOrder cfg s (ticks ts) = take (length ts) (byPriority (queue s))
            \<and> length (dispatchOrder cfg s (ticks ts)) = length ts)"
proof -
  have one: "executorCalls cfg (Tick now now') s =
     (if length (running s) < maxConcurrentJobs cfg \<and> queue s \<noteq> []
      then [hd (byPriority (queue s))] else [])"
    by (rule tick_calls)
  have two: "length (queue (step cfg (Tick now now') s))
       = length (queue s) - length (executorCalls cfg (Tick now now') s)"
    by (simp add: tick_queue tick_calls byPriority_def del: step.simps executorCalls.simps)
  have three: "length (running (step cfg (Tick now now') s))
       \<le> length (running s) + length (executorCalls cfg (Tick now now') s)"
    by (simp add: tick_running tick_calls length_update_le del: step.simps executorCalls.simps)
  have four: "queue s \<noteq> [] \<and> b \<in> set (queue s)
        \<longrightarrow> hd (byPriority (queue s)) \<in> set (queue s)
            \<and> priority b \<le> priority (hd (byPriority (queue s)))
            \<and> hd (filter (\<lambda>a. priority a = priority (hd (byPriority (queue s)))) (queue s))
                = hd (byPriority (queue s))"
    using hd_byPriority_member [of "queue s"] hd_byPriority_highest [of "queue s" b]
      hd_byPriority_first [of "queue s"] by simp
  have five: "length ts + length (running s) \<le> maxConcurrentJobs cfg \<and> length ts \<le> length (queue s)
        \<longrightarrow> dispatchOrder cfg s (ticks ts) = take (length ts) (byPriority (queue s))
            \<and> length (dispatchOrder cfg s (ticks ts)) = length ts"
    using ticks_dispatch [of ts s cfg] by (simp add: byPriority_def)
  from one two three tick_queue tick_running four five show ?thesis by (intro conjI)
qed

theorem tick_dispatches_at_most_one_witness:
  "map priority (executorCalls scenarioConfig (Tick 1000 1000)
     (run scenarioConfig initialQueue (take 3 scenarioEvents))) = [5]
   \<and> length (queue (step scenarioConfig (Tick 1000 1000)
        (run scenarioConfig initialQueue (take 3 scenarioEvents)))) = 2
   \<and> executorCalls scenarioConfig (Tick 3000 3000)
        (run scenarioConfig initialQueue (take 5 scenarioEvents)) = []
   \<and> length [(1000, 1000), (2000, 2000 :: int)]
        + length (running (run scenarioConfig initialQueue (take 3 scenarioEvents)))
       \<le> maxConcurrentJobs scenarioConfig
   \<and> map priority (dispatchOrder scenarioConfig
        (run scenarioConfig initialQueue (take 3 scenarioEvents))
        (ticks [(1000, 1000), (2000, 2000)])) = [5, 3]
   \<and> map priority (queue (run scenarioConfig initialQueue (take 3 scenarioEvents))) = [1, 5, 3]"
  using tick_dispatches_at_most_one
    [of scenarioConfig 1000 1000 "run scenarioConfig initialQueue (take 3 scenarioEvents)"
        "hd (queue (run scenarioConfig initialQueue (take 3 scenarioEvents)))"
        "[(1000, 1000), (2000, 2000)]"]
    tick_dispatches_at_most_one
    [of scenarioConfig 3000 3000 "run scenarioConfig initialQueue (take 5 scenarioEvents)"
        "hd (queue (run scenarioConfig initialQueue (take 5 scenarioEvents)))" "[]"]
  by (simp add: queue_defs scenario_defs ticks_def Let_def)

subsection \<open>Settlement\<close>

lemma step_promises_length: "length (promises s) \<le> length (promises (step cfg ev s))"
  by (cases ev)
     (auto simp: addJob_def processQueue_def startJob_def Let_def cleanupCompleted_def
        timeoutFires_def executorResolves_def executorRejects_def cancelJob_def
        split: option.splits)

lemma step_settled:
  assumes "h < length (promises s)" and "promises s ! h \<noteq> Pending"
  shows "promises (step cfg ev s) ! h = promises s ! h"
  using assms
  by (cases ev)
     (auto simp: addJob_def processQueue_def startJob_def Let_def cleanupCompleted_def
        timeoutFires_def executorResolves_def executorRejects_def cancelJob_def
        settle_settled nth_append split: option.splits)

lemma run_settled:
  "h < length (promises s) \<Longrightarrow> promises s ! h \<noteq> Pending \<Longrightarrow>
   h < length (promises (run cfg s evs)) \<and> promises (run cfg s evs) ! h = promises s ! h"
proof (induction evs arbitrary: s)
  case Nil
  then show ?case by simp
next
  case (Cons ev evs)
  have "h < length (promises (step cfg ev s))"
    using Cons.prems(1) step_promises_length [of s cfg ev] by simp
  moreover have "promises (step cfg ev s) ! h = promises s ! h"
    using Cons.prems by (rule step_settled)
  ultimately show ?case
    using Cons.IH [of "step cfg ev s"] Cons.prems(2) by simp
qed

lemma find_handle: "find (\<lambda>j. handle j = h) xs = Some j \<Longrightarrow> handle j = h"
  by (auto simp: find_Some_iff)

text \<open>
  Claim C9. Once the promise of a job is settled, no later event changes it: whatever
  follows (the executor's answer after a timeout, a cancellation, another timeout), the
  handle keeps the outcome of the first settlement.
\<close>

theorem settled_at_most_once:
  assumes "h < length (promises s)" and "promises s ! h \<noteq> Pending"
  shows "promises (run cfg s evs) ! h = promises s ! h"
  using run_settled [OF assms] by simp

text \<open>
  A job times out, then the executor completes it, then it is cancelled; and a running
  job is cancelled, then the executor completes it. The first settlement stands.
\<close>

theorem settled_at_most_once_witness:
  "promises (run scenarioConfig initialQueue (take 4 scenarioEvents @ [TimeoutFires 1])) ! 1
     = Rejected (TimedOut ''convert-2'' 100)
   \<and> promises (run scenarioConfig
        (run scenarioConfig initialQueue (take 4 scenarioEvents @ [TimeoutFires 1]))
        [ExecutorResolves 1 ''done'' 1500, CancelJob ''convert-2'']) ! 1
     = Rejected (TimedOut ''convert-2'' 100)
   \<and> promises (run scenarioConfig
        (run scenarioConfig initialQueue (take 4 scenarioEvents @ [CancelJob ''convert-2'']))
        [ExecutorResolves 1 ''done'' 1500]) ! 1
     = Rejected JobCancelled"
  using settled_at_most_once
    [of 1 "run scenarioConfig initialQueue (take 4 scenarioEvents @ [TimeoutFires 1])"
        scenarioConfig "[ExecutorResolves 1 ''done'' 1500, CancelJob ''convert-2'']"]
    settled_at_most_once
    [of 1 "run scenarioConfig initialQueue (take 4 scenarioEvents @ [CancelJob ''convert-2''])"
        scenarioConfig "[ExecutorResolves 1 ''done'' 1500]"]
  by (simp add: queue_defs scenario_defs Let_def)

subsection \<open>Timeouts\<close>

text \<open>
  Claim C7 fails as stated. In the scenario the job of priority 5 is dispatched by the
  first tick; its timeout fires while the executor is still at work. The handle is
  rejected with the timeout, but handling the timeout makes no call to the executor, the
  activation of \<^verbatim>\<open>startJob\<close> goes on waiting for it, and when the executor completes 500
  milliseconds after the start its result is recorded in \<^verbatim>\<open>completed\<close>.
\<close>

theorem timeout_does_not_address_executor:
  "map handle (timers (run scenarioConfig initialQueue (take 4 scenarioEvents))) = [1]
   \<and> promises (step scenarioConfig (TimeoutFires 1)
        (run scenarioConfig initialQueue (take 4 scenarioEvents))) ! 1
       = Rejected (TimedOut ''convert-2'' 100)
   \<and> executorCalls scenarioConfig (TimeoutFires 1)
        (run scenarioConfig initialQueue (take 4 scenarioEvents)) = []
   \<and> map handle (awaiting (step scenarioConfig (TimeoutFires 1)
        (run scenarioConfig initialQueue (take 4 scenarioEvents)))) = [1]
   \<and> completed (run scenarioConfig initialQueue
        (take 4 scenarioEvents @ [TimeoutFires 1, ExecutorResolves 1 ''done'' 1500]))
       = [(''convert-2'', ''done'', 1500)]"
  by (simp add: queue_defs scenario_defs Let_def)

text \<open>
  Claim C7, amended. When the timeout of a dispatched job fires while the job's handle is
  still pending (the executor has not answered and the job has not been cancelled), the
  handle is rejected with the timeout failure, and that outcome stands whatever happens
  later, the executor's own result included; the job leaves the running set. The timeout
  makes no call to the executor, and the suspended \<^verbatim>\<open>startJob\<close> keeps waiting for it.
\<close>

theorem timeout_settles_pending_handle:
  assumes "find (\<lambda>j. handle j = h) (timers s) = Some j"
    and "h < length (promises s)" and "promises s ! h = Pending"
  shows "promises (run cfg (step cfg (TimeoutFires h) s) evs) ! h
           = Rejected (TimedOut (job_id j) (queueTimeout cfg))
         \<and> map_of (running (step cfg (TimeoutFires h) s)) (job_id j) = None
         \<and> executorCalls cfg (TimeoutFires h) s = []
         \<and> awaiting (step cfg (TimeoutFires h) s) = awaiting s"
proof -
  let ?s' = "step cfg (TimeoutFires h) s"
  have hj: "handle j = h" using assms(1) by (rule find_handle)
  have p: "promises ?s' ! h = Rejected (TimedOut (job_id j) (queueTimeout cfg))"
    using assms hj by (simp add: timeoutFires_def settle_def)
  have l: "h < length (promises ?s')"
    using assms by (simp add: timeoutFires_def)
  have "promises (run cfg ?s' evs) ! h = promises ?s' ! h"
    using run_settled [OF l, of cfg evs] p by simp
  moreover have "map_of (running ?s') (job_id j) = None"
    using assms(1) by (simp add: timeoutFires_def delete_conv')
  moreover have "awaiting ?s' = awaiting s"
    using assms(1) by (simp add: timeoutFires_def)
  ultimately show ?thesis using p by simp
qed

theorem timeout_settles_pending_handle_witness:
  "find (\<lambda>j. handle j = 1) (timers (run scenarioConfig initialQueue (take 4 scenarioEvents)))
     = Some \<lparr> job_id = ''convert-2'', job_type = ''convert'', args = ''b.mp4'', priority = 5,
              startTime = Some 1000, handle = 1 \<rparr>
   \<and> promises (run scenarioConfig initialQueue (take 4 scenarioEvents)) ! 1 = Pending
   \<and> promises (run scenarioConfig
        (step scenarioConfig (TimeoutFires 1)
           (run scenarioConfig initialQueue (take 4 scenarioEvents)))
        [ExecutorResolves 1 ''done'' 1500]) ! 1
       = Rejected (TimedOut ''convert-2'' 100)
   \<and> map_of (running (step scenarioConfig (TimeoutFires 1)
        (run scenarioConfig initialQueue (take 4 scenarioEvents)))) ''convert-2'' = None"
  using timeout_settles_pending_handle
    [of 1 "run scenarioConfig initialQueue (take 4 scenarioEvents)"
        "\<lparr> job_id = ''convert-2'', job_type = ''convert'', args = ''b.mp4'', priority = 5,
           startTime = Some 1000, handle = 1 \<rparr>"
        scenarioConfig "[ExecutorResolves 1 ''done'' 1500]"]
  by (simp add: queue_defs scenario_defs Let_def)

section \<open>Properties of the sanitiser\<close>

lemmas sanitize_defs = dangerousFlags_def looksLikePath_def startsWith_def

lemma sanitize_drops: "set (sanitizeFFmpegArgs env cfg as) \<inter> set dangerousFlags = {}"
  by (induction env cfg as rule: sanitizeFFmpegArgs.induct) auto

lemma info_argv:
  "sanitizeFFmpegArgs env cfg [''-i'', filePath, ''-f'', ''null'', ''-'']
     = sanitizeFFmpegArgs env cfg [''-i'', filePath] @ [''null'', ''-'']"
  by (simp add: sanitize_defs)

text \<open>
  Claim C5 does not hold of the code. The test for a piped input looks at the neighbour
  of \<^verbatim>\<open>-i\<close> in the input, while the tokens dropped by the other rules bring \<^verbatim>\<open>-i\<close> and
  \<^verbatim>\<open>pipe:\<close> together in the output: from \<^verbatim>\<open>-i -f pipe:\<close>, which has no piped-input
  directive, one pass makes \<^verbatim>\<open>-i pipe:\<close>, on every machine and under every configuration.
\<close>

theorem dropped_token_joins_piped_input:
  "sanitizeFFmpegArgs env cfg [''-i'', ''-f'', ''pipe:''] = [''-i'', ''pipe:'']
   \<and> hasPipedInput (sanitizeFFmpegArgs env cfg [''-i'', ''-f'', ''pipe:''])
   \<and> \<not> hasPipedInput [''-i'', ''-f'', ''pipe:'']"
  by (simp add: sanitize_defs)

text \<open>
  Claim C10. No token of the list \<^verbatim>\<open>dangerousFlags\<close> (\<^verbatim>\<open>-f\<close>, \<^verbatim>\<open>lavfi\<close>,
  \<^verbatim>\<open>-protocol_whitelist\<close>, \<^verbatim>\<open>-safe\<close>, \<^verbatim>\<open>0\<close>, \<^verbatim>\<open>concat\<close>) is in the output, wherever it
  stood in the input. The argument list of the media-info tool, \<^verbatim>\<open>-i path -f null -\<close>,
  comes out as whatever is made of \<^verbatim>\<open>-i path\<close>, followed by \<^verbatim>\<open>null -\<close>: the \<^verbatim>\<open>-f\<close> is gone
  and the output differs from the input.
\<close>

theorem sanitize_drops_flag_tokens:
  "set (sanitizeFFmpegArgs env cfg as) \<inter> set dangerousFlags = {}
   \<and> set dangerousFlags = {''-f'', ''lavfi'', ''-protocol_whitelist'', ''-safe'', ''0'', ''concat''}
   \<and> sanitizeFFmpegArgs env cfg [''-i'', filePath, ''-f'', ''null'', ''-'']
       = sanitizeFFmpegArgs env cfg [''-i'', filePath] @ [''null'', ''-'']
   \<and> ''-f'' \<notin> set (sanitizeFFmpegArgs env cfg [''-i'', filePath, ''-f'', ''null'', ''-''])
   \<and> sanitizeFFmpegArgs env cfg [''-i'', filePath, ''-f'', ''null'', ''-'']
       \<noteq> [''-i'', filePath, ''-f'', ''null'', ''-'']"
proof -
  let ?argv = "[''-i'', filePath, ''-f'', ''null'', ''-'']"
  have f: "''-f'' \<in> set dangerousFlags" by (simp add: dangerousFlags_def)
  have b: "''-f'' \<notin> set (sanitizeFFmpegArgs env cfg ?argv)"
    using sanitize_drops [of env cfg ?argv] f by blast
  have c: "sanitizeFFmpegArgs env cfg ?argv \<noteq> ?argv"
  proof
    assume "sanitizeFFmpegArgs env cfg ?argv = ?argv"
    then have "''-f'' \<in> set (sanitizeFFmpegArgs env cfg ?argv)" by simp
    with b show False by simp
  qed
  have d: "set dangerousFlags
     = {''-f'', ''lavfi'', ''-protocol_whitelist'', ''-safe'', ''0'', ''concat''}"
    by (auto simp: dangerousFlags_def)
  from sanitize_drops [of env cfg as] d info_argv [of env cfg filePath] b c
  show ?thesis by (intro conjI)
qed

theorem sanitize_drops_flag_tokens_witness:
  "sanitizeFFmpegArgs emptyDisk (defaultSecurity ''/srv'')
       [''-i'', ''in.mp4'', ''-f'', ''null'', ''-'']
     = [''-i'', ''in.mp4'', ''null'', ''-'']
   \<and> set (sanitizeFFmpegArgs emptyDisk (defaultSecurity ''/srv'')
        [''-ss'', ''0'', ''-i'', ''in.mp4'', ''-f'', ''mp4'', ''out.mp4''])
       \<inter> set dangerousFlags = {}
   \<and> sanitizeFFmpegArgs emptyDisk (defaultSecurity ''/srv'')
        [''-ss'', ''0'', ''-i'', ''in.mp4'', ''-f'', ''mp4'', ''out.mp4'']
      = [''-ss'', ''-i'', ''in.mp4'', ''mp4'', ''out.mp4'']"
  using sanitize_drops_flag_tokens [of emptyDisk "defaultSecurity ''/srv''"
      "[''-ss'', ''0'', ''-i'', ''in.mp4'', ''-f'', ''mp4'', ''out.mp4'']" "''in.mp4''"]
  by (simp add: sanitize_defs)

section \<open>Properties of the cache\<close>

lemmas cache_defs = generateCacheKey_def cleanupCache_def getMediaInfo_def setMediaInfo_def
  invalidateMediaInfo_def clearCache_def cacheAfter_def

lemma cacheStep_disabled: "\<not> enableCaching cfg \<Longrightarrow> cacheStep byScore cfg ev [] = []"
  by (cases ev) (simp_all add: cache_defs)

lemma fold_cacheStep_disabled:
  "\<not> enableCaching cfg \<Longrightarrow> fold (cacheStep byScore cfg) evs [] = []"
  by (induction evs) (simp_all add: cacheStep_disabled)

lemma cacheAfter_disabled: "\<not> enableCaching cfg \<Longrightarrow> cacheAfter byScore cfg evs = []"
  by (simp add: cacheAfter_def fold_cacheStep_disabled)

text \<open>
  Claim C3. Take any cache that a history of calls produces, a file whose key has an
  entry, and a file system in which the file is gone (\<^verbatim>\<open>statSync\<close> throws) or was modified
  strictly after the entry was created: \<^verbatim>\<open>getMediaInfo\<close> reports a miss and the entry is
  no longer in the cache. Conversely, on any cache, a payload is returned only from an
  entry whose file exists with a modification time not after the entry's creation.
\<close>

theorem stale_entry_is_a_miss_and_evicted:
  "(c = cacheAfter byScore cfg evs
      \<and> map_of c (generateCacheKey filePath ''mediaInfo'') = Some entry
      \<and> (stat = None \<or> (\<exists>mtime. stat = Some mtime \<and> mtime > timestamp entry))
    \<longrightarrow> fst (getMediaInfo cfg stat filePath c) = None
        \<and> map_of (snd (getMediaInfo cfg stat filePath c))
             (generateCacheKey filePath ''mediaInfo'') = None)
   \<and> (fst (getMediaInfo cfg stat' filePath' c') = Some d
    \<longrightarrow> (\<exists>entry' mtime. map_of c' (generateCacheKey filePath' ''mediaInfo'') = Some entry'
           \<and> stat' = Some mtime \<and> mtime \<le> timestamp entry' \<and> d = data entry'))"
proof -
  have first: "c = cacheAfter byScore cfg evs
      \<and> map_of c (generateCacheKey filePath ''mediaInfo'') = Some entry
      \<and> (stat = None \<or> (\<exists>mtime. stat = Some mtime \<and> mtime > timestamp entry))
    \<longrightarrow> fst (getMediaInfo cfg stat filePath c) = None
        \<and> map_of (snd (getMediaInfo cfg stat filePath c))
             (generateCacheKey filePath ''mediaInfo'') = None"
  proof (intro impI, elim conjE)
    assume c: "c = cacheAfter byScore cfg evs"
      and e: "map_of c (generateCacheKey filePath ''mediaInfo'') = Some entry"
      and st: "stat = None \<or> (\<exists>mtime. stat = Some mtime \<and> mtime > timestamp entry)"
    have "enableCaching cfg"
      using c e cacheAfter_disabled [of cfg byScore evs] by (cases "enableCaching cfg") auto
    with e st show "fst (getMediaInfo cfg stat filePath c) = None
        \<and> map_of (snd (getMediaInfo cfg stat filePath c))
             (generateCacheKey filePath ''mediaInfo'') = None"
      by (auto simp: getMediaInfo_def Let_def delete_conv')
  qed
  have second: "fst (getMediaInfo cfg stat' filePath' c') = Some d
    \<longrightarrow> (\<exists>entry' mtime. map_of c' (generateCacheKey filePath' ''mediaInfo'') = Some entry'
           \<and> stat' = Some mtime \<and> mtime \<le> timestamp entry' \<and> d = data entry')"
    by (auto simp: getMediaInfo_def Let_def split: if_splits option.splits)
  from first second show ?thesis by (rule conjI)
qed

text \<open>
  A file cached at time 1000: modified at 2000, or deleted, it is a miss and its entry
  goes; unmodified since 500, it is a hit.
\<close>

theorem stale_entry_is_a_miss_and_evicted_witness:
  "map_of (cacheAfter (\<lambda>c. c) scenarioConfig [SetMediaInfo 1000 ''/tmp/a.mp4'' ''info''])
      (generateCacheKey ''/tmp/a.mp4'' ''mediaInfo'')
     = Some \<lparr> data = ''info'', timestamp = 1000, accessCount = 1 \<rparr>
   \<and> getMediaInfo scenarioConfig (Some 2000) ''/tmp/a.mp4''
        (cacheAfter (\<lambda>c. c) scenarioConfig [SetMediaInfo 1000 ''/tmp/a.mp4'' ''info''])
       = (None, [])
   \<and> getMediaInfo scenarioConfig None ''/tmp/a.mp4''
        (cacheAfter (\<lambda>c. c) scenarioConfig [SetMediaInfo 1000 ''/tmp/a.mp4'' ''info''])
       = (None, [])
   \<and> fst (getMediaInfo scenarioConfig (Some 500) ''/tmp/a.mp4''
        (cacheAfter (\<lambda>c. c) scenarioConfig [SetMediaInfo 1000 ''/tmp/a.mp4'' ''info'']))
       = Some ''info''"
  using stale_entry_is_a_miss_and_evicted
    [of "cacheAfter (\<lambda>c. c) scenarioConfig [SetMediaInfo 1000 ''/tmp/a.mp4'' ''info'']"
        "\<lambda>c. c" scenarioConfig "[SetMediaInfo 1000 ''/tmp/a.mp4'' ''info'']" "''/tmp/a.mp4''"
        "\<lparr> data = ''info'', timestamp = 1000, accessCount = 1 \<rparr>" "Some 2000"
        "Some 500" "''/tmp/a.mp4''"
        "cacheAfter (\<lambda>c. c) scenarioConfig [SetMediaInfo 1000 ''/tmp/a.mp4'' ''info'']"
        "''info''"]
  by (simp add: cache_defs scenarioConfig_def)

lemma length_delete_present:
  "distinct (map fst c) \<Longrightarrow> (k, e) \<in> set c \<Longrightarrow> Suc (length (AList.delete k c)) = length c"
proof (induction c)
  case Nil
  then show ?case by simp
next
  case (Cons x c)
  show ?case
  proof (cases "fst x = k")
    case True
    then have "k \<notin> fst ` set c" using Cons.prems(1) by auto
    then show ?thesis using True by (simp add: delete_id)
  next
    case False
    then show ?thesis using Cons by auto
  qed
qed

lemma fold_delete_length:
  "distinct (map fst c) \<Longrightarrow> distinct (map fst xs) \<Longrightarrow> set xs \<subseteq> set c \<Longrightarrow>
   length (fold (\<lambda>(key, entry). AList.delete key) xs c) + length xs = length c"
proof (induction xs arbitrary: c)
  case Nil
  then show ?case by simp
next
  case (Cons x xs)
  obtain k e where x: "x = (k, e)" by (cases x)
  have in_c: "(k, e) \<in> set c" using Cons.prems(3) x by simp
  have len: "Suc (length (AList.delete k c)) = length c"
    using Cons.prems(1) in_c by (rule length_delete_present)
  have d1: "distinct (map fst (AList.delete k c))"
    using Cons.prems(1) by (rule distinct_delete)
  have d2: "distinct (map fst xs)" using Cons.prems(2) by simp
  have "k \<notin> fst ` set xs" using Cons.prems(2) x by simp
  then have sub: "set xs \<subseteq> set (AList.delete k c)"
    using Cons.prems(3) by (force simp: AList.delete_eq)
  show ?case
    using Cons.IH [OF d1 d2 sub] len x by simp
qed

lemma cleanupCache_length:
  assumes "distinct (map fst c)"
    and "length (byScore c) = length c" and "set (byScore c) = set c"
  shows "length (cleanupCache byScore cfg c)
           = (if length c \<le> cacheSize cfg then length c
              else length c - min (cacheSize cfg div 5) (length c))"
proof (cases "length c \<le> cacheSize cfg")
  case True
  then show ?thesis by (simp add: cleanupCache_def)
next
  case False
  let ?xs = "take (cacheSize cfg div 5) (byScore c)"
  have "card (set (byScore c)) = length (byScore c)"
    using assms distinct_card [of c] distinct_map [of fst c] by simp
  then have "distinct (byScore c)" by (rule card_distinct)
  moreover have "inj_on fst (set (byScore c))"
    using assms(1,3) by (simp add: distinct_map)
  ultimately have "distinct (map fst (byScore c))" by (simp add: distinct_map)
  then have d: "distinct (map fst ?xs)" by (simp add: take_map [symmetric] del: take_map)
  have sub: "set ?xs \<subseteq> set c" using assms(3) set_take_subset [of _ "byScore c"] by auto
  have "length (fold (\<lambda>(key, entry). AList.delete key) ?xs c) + length ?xs = length c"
    using assms(1) d sub by (rule fold_delete_length)
  then show ?thesis using False assms(2) by (simp add: cleanupCache_def)
qed

lemma seven_inserts_sweep:
  "cacheAfter byScore scenarioConfig sevenInserts
     = cleanupCache byScore scenarioConfig sevenEntries"
  by (simp add: cacheAfter_def setMediaInfo_def generateCacheKey_def scenarioConfig_def
        sevenInserts_def sevenEntries_def sevenFiles_def)

text \<open>
  Claim C6 does not hold of the code. With a maximum of 5, the seventh insertion makes
  the size 7, more than 1.2 times the maximum, and \<^verbatim>\<open>setMediaInfo\<close> runs the sweep. The
  sweep removes \<^verbatim>\<open>Math.floor(5 * 0.2)\<close>, one entry, whichever order the scores give, and
  leaves 6 entries in a cache whose maximum is 5.
\<close>

theorem sweep_leaves_cache_above_maximum:
  assumes "length (byScore sevenEntries) = length sevenEntries"
    and "set (byScore sevenEntries) = set sevenEntries"
  shows "cacheAfter byScore scenarioConfig sevenInserts
           = cleanupCache byScore scenarioConfig sevenEntries
         \<and> length sevenEntries = 7
         \<and> length (cleanupCache byScore scenarioConfig sevenEntries) = 6
         \<and> cacheSize scenarioConfig = 5"
proof -
  have d: "distinct (map fst sevenEntries)"
    by (simp add: sevenEntries_def sevenFiles_def generateCacheKey_def)
  have l: "length sevenEntries = 7"
    by (simp add: sevenEntries_def sevenFiles_def)
  have "length (cleanupCache byScore scenarioConfig sevenEntries) = 6"
    using cleanupCache_length [where c = sevenEntries and byScore = byScore
        and cfg = scenarioConfig] d assms l
    by (simp add: scenarioConfig_def)
  then show ?thesis
    using seven_inserts_sweep l by (simp add: scenarioConfig_def)
qed

theorem sweep_leaves_cache_above_maximum_witness:
  "length ((\<lambda>c. c) sevenEntries) = length sevenEntries
   \<and> set ((\<lambda>c. c) sevenEntries) = set sevenEntries
   \<and> length (cacheAfter (\<lambda>c. c) scenarioConfig sevenInserts) = 6
   \<and> cacheSize scenarioConfig = 5"
  using sweep_leaves_cache_above_maximum [of "\<lambda>c. c"]
  by simp

section \<open>Properties of the rate limiter\<close>

lemmas limiter_defs = checkRateLimit_def cleanupRateLimitMap_def initialLimiter_def

lemma checkRateLimit_blocked:
  "c \<in> blockedIPs s \<Longrightarrow> checkRateLimit cfg now c s = (False, s)"
  by (simp add: checkRateLimit_def)

lemma step_blocked: "c \<in> blockedIPs s \<Longrightarrow> c \<in> blockedIPs (limiterStep cfg ev s)"
  by (cases ev) (auto simp: limiter_defs Let_def split: option.splits)

lemma run_blocked: "c \<in> blockedIPs s \<Longrightarrow> c \<in> blockedIPs (limiterRun cfg s evs)"
  by (induction evs arbitrary: s) (auto simp: step_blocked)

lemma replies_blocked:
  "c \<in> blockedIPs s \<Longrightarrow>
   replies cfg c s evs = replicate (length (filter (isRequestBy c) evs)) False"
proof (induction evs arbitrary: s)
  case Nil
  then show ?case by simp
next
  case (Cons ev evs)
  have b: "c \<in> blockedIPs (limiterStep cfg ev s)" using Cons.prems by (rule step_blocked)
  show ?case
  proof (cases ev)
    case (Request clientId now)
    then show ?thesis
      using Cons.IH [OF b] Cons.prems by (auto simp: checkRateLimit_blocked)
  next
    case (Cleanup now)
    then show ?thesis using Cons.IH [OF b] by simp
  qed
qed

lemma map_of_filter_keep:
  "map_of m k = Some v \<Longrightarrow> P (k, v) \<Longrightarrow> map_of (filter P m) k = Some v"
  by (induction m) (auto split: if_splits)

lemma other_request_keeps:
  assumes "clientId \<noteq> c"
  shows "map_of (rateLimitMap (snd (checkRateLimit cfg now clientId s))) c
           = map_of (rateLimitMap s) c
         \<and> (c \<in> blockedIPs (snd (checkRateLimit cfg now clientId s)) \<longleftrightarrow> c \<in> blockedIPs s)"
  using assms by (auto simp: checkRateLimit_def Let_def update_conv' split: option.splits)

lemma replies_in_window:
  assumes "c \<notin> blockedIPs s"
    and "map_of (rateLimitMap s) c = Some \<lparr> count = k, windowStart = start \<rparr>"
    and "\<forall>ev\<in>set evs. inWindow cfg c start ev"
  shows "replies cfg c s evs
           = replicate (min (length (filter (isRequestBy c) evs)) (rateLimitMaxRequests cfg - k)) True
             @ replicate (length (filter (isRequestBy c) evs) - (rateLimitMaxRequests cfg - k)) False
         \<and> (length (filter (isRequestBy c) evs) > rateLimitMaxRequests cfg - k
              \<longrightarrow> c \<in> blockedIPs (limiterRun cfg s evs))"
  using assms
proof (induction evs arbitrary: s k)
  case Nil
  then show ?case by simp
next
  case (Cons ev evs)
  let ?M = "rateLimitMaxRequests cfg"
  have rest: "\<forall>ev\<in>set evs. inWindow cfg c start ev" using Cons.prems(3) by simp
  show ?case
  proof (cases ev)
    case (Cleanup now)
    have "\<not> now - start > rateLimitWindow cfg * 1000"
      using Cons.prems(3) Cleanup by simp
    then have m: "map_of (rateLimitMap (limiterStep cfg ev s)) c
                    = Some \<lparr> count = k, windowStart = start \<rparr>"
      using Cons.prems(2) Cleanup
      by (simp add: cleanupRateLimitMap_def map_of_filter_keep)
    have b: "c \<notin> blockedIPs (limiterStep cfg ev s)"
      using Cons.prems(1) Cleanup by (simp add: cleanupRateLimitMap_def)
    show ?thesis using Cons.IH [OF b m rest] Cleanup by simp
  next
    case (Request clientId now)
    show ?thesis
    proof (cases "clientId = c")
      case False
      have m: "map_of (rateLimitMap (limiterStep cfg ev s)) c
                    = Some \<lparr> count = k, windowStart = start \<rparr>"
        and b: "c \<notin> blockedIPs (limiterStep cfg ev s)"
        using other_request_keeps [OF False, of cfg now s] Cons.prems(1,2) Request by simp_all
      show ?thesis using Cons.IH [OF b m rest] Request False by simp
    next
      case True
      have w: "\<not> now - start > rateLimitWindow cfg * 1000"
        using Cons.prems(3) Request True by simp
      show ?thesis
      proof (cases "Suc k > ?M")
        case over: True
        have r: "fst (checkRateLimit cfg now c s) = False"
          and b: "c \<in> blockedIPs (limiterStep cfg ev s)"
          using Cons.prems(1,2) w over Request True
          by (simp_all add: checkRateLimit_def Let_def)
        have "replies cfg c (limiterStep cfg ev s) evs
                = replicate (length (filter (isRequestBy c) evs)) False"
          using b by (rule replies_blocked)
        moreover have "c \<in> blockedIPs (limiterRun cfg (limiterStep cfg ev s) evs)"
          using b by (rule run_blocked)
        ultimately show ?thesis using r over Request True by simp
      next
        case under: False
        have r: "fst (checkRateLimit cfg now c s) = True"
          and b: "c \<notin> blockedIPs (limiterStep cfg ev s)"
          and m: "map_of (rateLimitMap (limiterStep cfg ev s)) c
                    = Some \<lparr> count = Suc k, windowStart = start \<rparr>"
          using Cons.prems(1,2) w under Request True
          by (simp_all add: checkRateLimit_def Let_def update_conv')
        have e1: "min (Suc n) (?M - k) = Suc (min n (?M - Suc k))" for n
          using under by (auto simp: min_def)
        have e2: "Suc n - (?M - k) = n - (?M - Suc k)" for n
          using under by arith
        have e3: "(?M - k < Suc n) = (?M - Suc k < n)" for n
          using under by arith
        show ?thesis
          using Cons.IH [OF b m rest] r Request True e1 e2 e3 by simp
      qed
    qed
  qed
qed


lemma limiterRun_append:
  "limiterRun cfg s (xs @ ys) = limiterRun cfg (limiterRun cfg s xs) ys"
  by (induction xs arbitrary: s) auto

text \<open>
  Claim C4 fails as stated when the configured maximum is 0: the first request of a
  client opens its window and is admitted without being compared with the maximum.
\<close>

theorem first_request_admitted_under_zero_maximum:
  "rateLimitMaxRequests nonePerMinute = 0
   \<and> replies nonePerMinute ''client'' initialLimiter [Request ''client'' 0] = [True]"
  by (simp add: nonePerMinute_def defaultSecurity_def limiter_defs)

text \<open>
  Claim C4, amended: for a configured maximum of at least 1. A client that is not
  blocked opens a window at \<open>start\<close> (it has no entry, or a stale one). While the clock
  stays within that window for its requests and for the cleanups, and whatever other
  clients do, its first \<open>max\<close> requests are admitted and request \<open>max + 1\<close> is denied. From
  then on the client is in the block set, through any further requests and cleanups at
  any times, and every later call of \<^verbatim>\<open>checkRateLimit\<close> for it returns false.
\<close>

theorem over_limit_client_is_blocked_for_good:
  assumes "1 \<le> rateLimitMaxRequests cfg"
    and "c \<notin> blockedIPs s"
    and "case map_of (rateLimitMap s) c of None \<Rightarrow> True
         | Some entry \<Rightarrow> start - windowStart entry > rateLimitWindow cfg * 1000"
    and "\<forall>ev\<in>set evs. inWindow cfg c start ev"
    and "length (filter (isRequestBy c) evs) = rateLimitMaxRequests cfg"
  shows "replies cfg c s (Request c start # evs)
           = replicate (rateLimitMaxRequests cfg) True @ [False]
         \<and> c \<in> blockedIPs (limiterRun cfg s (Request c start # evs @ later))
         \<and> fst (checkRateLimit cfg now c (limiterRun cfg s (Request c start # evs @ later)))
             = False"
proof -
  let ?M = "rateLimitMaxRequests cfg"
  let ?s1 = "limiterStep cfg (Request c start) s"
  have r: "fst (checkRateLimit cfg start c s) = True"
    and b: "c \<notin> blockedIPs ?s1"
    and m: "map_of (rateLimitMap ?s1) c = Some \<lparr> count = 1, windowStart = start \<rparr>"
    using assms(2,3)
    by (auto simp: checkRateLimit_def Let_def update_conv' split: option.splits)
  have n: "min ?M (?M - 1) = ?M - 1" and z: "?M - (?M - 1) = 1" and g: "?M > ?M - 1"
    using assms(1) by simp_all
  have w: "replies cfg c ?s1 evs = replicate (?M - 1) True @ [False]
           \<and> c \<in> blockedIPs (limiterRun cfg ?s1 evs)"
    using replies_in_window [OF b m assms(4)] assms(5) n z g by simp
  have "True # replicate (?M - 1) True = replicate ?M True"
    using assms(1) by (cases ?M) simp_all
  then have first: "replies cfg c s (Request c start # evs) = replicate ?M True @ [False]"
    using r w by simp
  have "c \<in> blockedIPs (limiterRun cfg (limiterRun cfg ?s1 evs) later)"
    using w by (simp add: run_blocked)
  then have second: "c \<in> blockedIPs (limiterRun cfg s (Request c start # evs @ later))"
    by (simp add: limiterRun_append)
  then have "fst (checkRateLimit cfg now c (limiterRun cfg s (Request c start # evs @ later)))
             = False"
    by (simp add: checkRateLimit_blocked)
  with first second show ?thesis by simp
qed

text \<open>
  The scenario of the specification: three requests in sixty seconds. Requests 1 to 3
  are admitted, request 4 is denied, and a request long after the window has passed is
  denied as well.
\<close>

theorem over_limit_client_is_blocked_for_good_witness:
  "(1::nat) \<le> rateLimitMaxRequests threePerMinute
   \<and> ''x'' \<notin> blockedIPs initialLimiter
   \<and> map_of (rateLimitMap initialLimiter) ''x'' = None
   \<and> replies threePerMinute ''x'' initialLimiter
        [Request ''x'' 0, Request ''x'' 1000, Request ''y'' 2000, Cleanup 30000,
         Request ''x'' 59000, Request ''x'' 60000]
       = [True, True, True, False]
   \<and> fst (checkRateLimit threePerMinute 99999999 ''x''
        (limiterRun threePerMinute initialLimiter
           (Request ''x'' 0 # [Request ''x'' 1000, Request ''y'' 2000, Cleanup 30000,
               Request ''x'' 59000, Request ''x'' 60000] @ [Cleanup 121000]))) = False"
  using over_limit_client_is_blocked_for_good
    [of threePerMinute "''x''" initialLimiter 0
        "[Request ''x'' 1000, Request ''y'' 2000, Cleanup 30000, Request ''x'' 59000,
          Request ''x'' 60000]" "[Cleanup 121000]" 99999999]
  by (simp add: threePerMinute_def defaultSecurity_def limiter_defs Let_def)

end
